theory Spec2Isabelle
  imports Main
begin

section \<open>The Winsock environment\<close>

text \<open>
  A \<open>SOCKET\<close> is an unsigned handle. The server and the client only ever pass handles on,
  compare them and hand them to \<open>send\<close>, \<open>recv\<close> and \<open>closesocket\<close>.
  \<open>INVALID_SOCKET\<close> is the all-ones handle, \<open>SOCKET_ERROR\<close> is \<open>-1\<close>.
\<close>

type_synonym SOCKET = nat

definition INVALID_SOCKET :: SOCKET where
  "INVALID_SOCKET = 2 ^ 64 - 1"

definition SOCKET_ERROR :: int where
  "SOCKET_ERROR = - 1"

definition NUL :: char where
  "NUL = CHR 0x00"

text \<open>
  The wire records every call of \<open>send\<close> in program order: the socket written to and the
  bytes handed over. Whether a write succeeds is the environment's choice, given by
  \<open>up\<close>: \<open>send\<close> returns the number of bytes on success and \<open>SOCKET_ERROR\<close> otherwise.
  The bytes that really reach the peers are \<open>delivered\<close>.
\<close>

type_synonym wire = "(SOCKET \<times> string) list"

definition send_sock :: "(SOCKET \<Rightarrow> bool) \<Rightarrow> SOCKET \<Rightarrow> string \<Rightarrow> wire \<Rightarrow> int \<times> wire" where
  "send_sock up s buf w =
     ((if up s then int (length buf) else SOCKET_ERROR), w @ [(s, buf)])"

definition delivered :: "(SOCKET \<Rightarrow> bool) \<Rightarrow> wire \<Rightarrow> wire" where
  "delivered up w = filter (\<lambda>c. up (fst c)) w"

text \<open>
  What a blocking \<open>recv\<close> finds on the connection: some bytes, an orderly shutdown by the
  peer, or a failed connection. \<open>recv s buf len\<close> copies at most \<open>len\<close> bytes to the
  front of \<open>buf\<close> and returns their number, \<open>0\<close> after a shutdown, \<open>SOCKET_ERROR\<close>
  after a failure.
\<close>

datatype incoming = Bytes string | Closed | Reset

definition recv_sock :: "incoming \<Rightarrow> string \<Rightarrow> nat \<Rightarrow> int \<times> string" where
  "recv_sock inc buf len =
     (case inc of
        Bytes d \<Rightarrow> (let got = take len d in (int (length got), got @ drop (length got) buf))
      | Closed \<Rightarrow> (0, buf)
      | Reset \<Rightarrow> (SOCKET_ERROR, buf))"

section \<open>Buffers and strings\<close>

text \<open>
  \<open>char buffer[4096]\<close>. A store \<open>buffer[i] = c\<close> outside the array is undefined
  behaviour: \<open>store\<close> returns \<open>None\<close> there. \<open>c_string\<close> is what \<open>string message(buffer)\<close>
  reads: the bytes before the first terminator.
\<close>

definition BUFSZ :: nat where
  "BUFSZ = 4096"

definition store :: "string \<Rightarrow> int \<Rightarrow> char \<Rightarrow> string option" where
  "store buf i c = (if 0 \<le> i \<and> nat i < length buf then Some (buf[nat i := c]) else None)"

definition c_string :: "string \<Rightarrow> string" where
  "c_string buf = takeWhile (\<lambda>c. c \<noteq> NUL) buf"

text \<open>
  \<open>message.compare(0, n, prefix) == 0\<close> holds when the first \<open>n\<close> characters of the
  message (fewer when it is shorter) are \<open>prefix\<close>; \<open>message.substr(pos)\<close> throws
  \<open>out_of_range\<close> when \<open>pos\<close> is beyond the end.
\<close>

definition compare0 :: "string \<Rightarrow> nat \<Rightarrow> string \<Rightarrow> bool" where
  "compare0 message n prefix = (take n message = prefix)"

definition substr :: "string \<Rightarrow> nat \<Rightarrow> string option" where
  "substr message pos = (if pos \<le> length message then Some (drop pos message) else None)"

definition connectPrefix :: string where
  "connectPrefix = ''__CONNECT__''"

section \<open>The server: ChatServer.cpp\<close>

subsection \<open>The two broadcast loops of HandleClient\<close>

text \<open>
  \<open>for (SOCKET otherClient : *clients) if (otherClient != clientSocket) send(otherClient, ...)\<close>.
  The value \<open>send\<close> returns is dropped. The texts the server sends come out of its
  buffer and have at most 4095 bytes, so the conversion of their length to \<open>int\<close>
  changes nothing.
\<close>

fun broadcast_loop :: "(SOCKET \<Rightarrow> bool) \<Rightarrow> SOCKET \<Rightarrow> string \<Rightarrow> SOCKET list \<Rightarrow> wire \<Rightarrow> wire" where
  "broadcast_loop up clientSocket msg [] w = w"
| "broadcast_loop up clientSocket msg (otherClient # rest) w =
     (if otherClient \<noteq> clientSocket
      then broadcast_loop up clientSocket msg rest (snd (send_sock up otherClient msg w))
      else broadcast_loop up clientSocket msg rest w)"

subsection \<open>One iteration of the receive loop\<close>

text \<open>
  The locals of one \<open>HandleClient\<close> thread that live across iterations, and the three ways
  an iteration ends: the loop goes on, the loop is left by \<open>break\<close>, or the iteration
  runs into undefined behaviour or an exception (\<open>Fault\<close>). Console output is left out.
\<close>

record local_vars =
  buffer :: string
  clientName :: string

datatype iteration = Continue local_vars wire | Break | Fault

definition HandleClient_body ::
  "(SOCKET \<Rightarrow> bool) \<Rightarrow> SOCKET \<Rightarrow> SOCKET list \<Rightarrow> incoming \<Rightarrow> local_vars \<Rightarrow> wire \<Rightarrow> iteration" where
  "HandleClient_body up clientSocket clients inc l w =
     (case recv_sock inc (buffer l) (BUFSZ - 1) of
        (bytesReceived, buf1) \<Rightarrow>
          if bytesReceived \<le> 0 then Break
          else (case store buf1 bytesReceived NUL of
                  None \<Rightarrow> Fault
                | Some buf2 \<Rightarrow>
                    let message = c_string buf2 in
                    if compare0 message (length connectPrefix) connectPrefix
                    then (case substr message (length connectPrefix) of
                            None \<Rightarrow> Fault
                          | Some name \<Rightarrow>
                              let sysMsg = name @ '' connected.'' in
                              Continue (l\<lparr>buffer := buf2, clientName := name\<rparr>)
                                       (broadcast_loop up clientSocket sysMsg clients w))
                    else Continue (l\<lparr>buffer := buf2\<rparr>)
                                  (broadcast_loop up clientSocket message clients w)))"

subsection \<open>Leaving the registry\<close>

text \<open>
  \<open>find\<close> returns the position of the first occurrence, or the end position;
  \<open>erase\<close> at the end position is undefined behaviour (\<open>None\<close>).
\<close>

fun find_pos :: "SOCKET list \<Rightarrow> SOCKET \<Rightarrow> nat" where
  "find_pos [] x = 0"
| "find_pos (y # ys) x = (if y = x then 0 else Suc (find_pos ys x))"

definition erase :: "SOCKET list \<Rightarrow> nat \<Rightarrow> SOCKET list option" where
  "erase xs it = (if it < length xs then Some (take it xs @ drop (Suc it) xs) else None)"

definition remove_client :: "SOCKET list \<Rightarrow> SOCKET \<Rightarrow> SOCKET list option" where
  "remove_client clients clientSocket =
     (let it = find_pos clients clientSocket in
      if it \<noteq> length clients then erase clients it else Some clients)"

subsection \<open>The server as a whole\<close>

text \<open>
  The shared vector \<open>clients\<close>, the running \<open>HandleClient\<close> threads with their locals,
  and the wire. An event is one turn of the accept loop of \<open>main\<close> (with the handle
  \<open>accept\<close> returned) or one iteration of the receive loop of the thread of a socket
  (with what its \<open>recv\<close> found). Each event runs to its end before the next one starts.
  A \<open>Recv\<close> for a socket without a thread cannot happen and changes nothing.
  \<open>main\<close> skips a failed \<open>accept\<close>; otherwise it appends the handle to \<open>clients\<close> and
  starts the thread, whose buffer is zeroed and whose name is \<open>Unknown\<close>. A thread that
  leaves its loop erases its handle and ends; its \<open>closesocket\<close> touches neither the
  registry nor the wire.
\<close>

record server =
  clients :: "SOCKET list"
  threads :: "SOCKET \<rightharpoonup> local_vars"
  wire :: wire

datatype event = Accept SOCKET | Recv SOCKET incoming

definition new_thread :: local_vars where
  "new_thread = \<lparr>buffer = replicate BUFSZ NUL, clientName = ''Unknown''\<rparr>"

definition step :: "(SOCKET \<Rightarrow> bool) \<Rightarrow> event \<Rightarrow> server \<Rightarrow> server option" where
  "step up e sv =
     (case e of
        Accept clientSocket \<Rightarrow>
          if clientSocket = INVALID_SOCKET then Some sv
          else Some (sv\<lparr>clients := clients sv @ [clientSocket],
                        threads := (threads sv)(clientSocket \<mapsto> new_thread)\<rparr>)
      | Recv clientSocket inc \<Rightarrow>
          (case threads sv clientSocket of
             None \<Rightarrow> Some sv
           | Some l \<Rightarrow>
               (case HandleClient_body up clientSocket (clients sv) inc l (wire sv) of
                  Fault \<Rightarrow> None
                | Continue l' w' \<Rightarrow>
                    Some (sv\<lparr>threads := (threads sv)(clientSocket \<mapsto> l'), wire := w'\<rparr>)
                | Break \<Rightarrow>
                    (case remove_client (clients sv) clientSocket of
                       None \<Rightarrow> None
                     | Some clients' \<Rightarrow>
                         Some (sv\<lparr>clients := clients',
                                  threads := (threads sv)(clientSocket := None)\<rparr>)))))"

fun run :: "(SOCKET \<Rightarrow> bool) \<Rightarrow> event list \<Rightarrow> server \<Rightarrow> server option" where
  "run up [] sv = Some sv"
| "run up (e # es) sv = (case step up e sv of None \<Rightarrow> None | Some sv' \<Rightarrow> run up es sv')"

definition server_start :: server where
  "server_start = \<lparr>clients = [], threads = Map.empty, wire = []\<rparr>"

section \<open>The client: ChatClient.cpp\<close>

text \<open>
  \<open>send(s, str.c_str(), (int)str.length(), 0)\<close>. The length of the string is converted
  to \<open>int\<close>, which has 32 bits: \<open>int_cast\<close>. \<open>send\<close> is handed the string's bytes and that
  number, and writes that many bytes. A negative number is no length: what \<open>send\<close> does
  with it is not the program's to say (\<open>None\<close>).
\<close>

definition int_cast :: "nat \<Rightarrow> int" where
  "int_cast n = (let m = int n mod 2 ^ 32 in if m < 2 ^ 31 then m else m - 2 ^ 32)"

definition send_string :: "(SOCKET \<Rightarrow> bool) \<Rightarrow> SOCKET \<Rightarrow> string \<Rightarrow> wire \<Rightarrow> (int \<times> wire) option" where
  "send_string up s str w =
     (let len = int_cast (length str)
      in if len < 0 then None else Some (send_sock up s (take (nat len) str) w))"

text \<open>
  The sending loop of \<open>sendMesg\<close>. The input that is left when the loop starts is the
  lines that end with a newline, in order, and the text after the last newline
  (\<open>unterminated\<close>, empty when there is none). \<open>getline\<close> clears \<open>message\<close> and reads one
  line into it as long as the stream is good. It reads the unterminated text too, and
  reaching the end there leaves the stream not good; from then on every \<open>getline\<close> fails
  at once and leaves \<open>message\<close> as it is. So at the end of the input:
  \<^item> with no unterminated text, \<open>message\<close> is empty in every further iteration, and
    the loop goes round for ever without sending (\<open>Spins\<close>);
  \<^item> with unterminated text, that text is sent; unless the loop is left then, every
    further iteration finds it in \<open>message\<close> again and sends it again, for ever
    (\<open>Resends\<close>, with the wire before the first of these calls and the call repeated).
  \<open>Returns\<close> is the loop left by \<open>break\<close>, \<open>NegativeLength\<close> a call of \<open>send\<close> with a negative
  length. \<open>sendMesg\<close> takes the name the prompt loop has read, sends the announcement,
  whose result it does not look at, and enters the loop. Prompts and the final
  \<open>closesocket\<close> are left out.
\<close>

datatype sender_end =
  Returns wire | Spins wire | Resends wire "SOCKET \<times> string" | NegativeLength wire

fun sendMesg_loop ::
  "(SOCKET \<Rightarrow> bool) \<Rightarrow> SOCKET \<Rightarrow> string \<Rightarrow> string list \<Rightarrow> string \<Rightarrow> wire \<Rightarrow> sender_end" where
  "sendMesg_loop up s name [] unterminated w =
     (if unterminated = [] then Spins w
      else
        let message = unterminated;
            fullMsg = name @ '' : '' @ message
        in case send_string up s fullMsg w of
             None \<Rightarrow> NegativeLength w
           | Some (byteSent, w') \<Rightarrow>
               if byteSent = SOCKET_ERROR then Returns w'
               else if message = ''quit'' \<or> message = ''exit'' then Returns w'
               else Resends w (s, take (nat (int_cast (length fullMsg))) fullMsg))"
| "sendMesg_loop up s name (message # rest) unterminated w =
     (if message = [] then sendMesg_loop up s name rest unterminated w
      else
        let fullMsg = name @ '' : '' @ message
        in case send_string up s fullMsg w of
             None \<Rightarrow> NegativeLength w
           | Some (byteSent, w') \<Rightarrow>
               if byteSent = SOCKET_ERROR then Returns w'
               else if message = ''quit'' \<or> message = ''exit'' then Returns w'
               else sendMesg_loop up s name rest unterminated w')"



text \<open>
  One iteration of the receiving loop of \<open>recvMesg\<close>: the line printed, or the loop left,
  or a store outside the buffer.
\<close>

datatype receiver_iteration = Printed string string | Left | OutOfBounds

definition recvMesg_body :: "incoming \<Rightarrow> string \<Rightarrow> receiver_iteration" where
  "recvMesg_body inc buf =
     (case recv_sock inc buf (BUFSZ - 1) of
        (recvLen, buf1) \<Rightarrow>
          if recvLen \<le> 0 then Left
          else (case store buf1 recvLen NUL of
                  None \<Rightarrow> OutOfBounds
                | Some buf2 \<Rightarrow> Printed buf2 (c_string buf2)))"

section \<open>Observing a run\<close>

text \<open>
  What can be seen of a server state: every registered handle with the name its thread
  holds, and the wire. \<open>all_up\<close> is the network on which every write succeeds.
\<close>

definition all_up :: "SOCKET \<Rightarrow> bool" where
  "all_up s = True"

text \<open>The network on which every write to socket 2 fails and every other write succeeds.\<close>

definition except_2 :: "SOCKET \<Rightarrow> bool" where
  "except_2 s = (s \<noteq> 2)"

definition names_of :: "server \<Rightarrow> (SOCKET \<times> string option) list" where
  "names_of sv = map (\<lambda>s. (s, map_option clientName (threads sv s))) (clients sv)"

definition run_view ::
  "(SOCKET \<Rightarrow> bool) \<Rightarrow> event list \<Rightarrow> server \<Rightarrow> ((SOCKET \<times> string option) list \<times> wire) option" where
  "run_view up es sv = map_option (\<lambda>sv'. (names_of sv', wire sv')) (run up es sv)"

text \<open>The receive buffer after \<open>d\<close> was read into \<open>buf\<close> and the terminator stored.\<close>

definition refill :: "string \<Rightarrow> string \<Rightarrow> string" where
  "refill d buf = d @ NUL # drop (Suc (length d)) buf"

text \<open>
  The invariants of the registry and of the threads: no handle is registered twice, and
  every thread's buffer has its declared size. \<open>accept\<close> never returns a handle that is
  still open, and a registered handle is still open (it is closed after it is erased):
  \<open>fresh_accepts\<close> says that of a sequence of events.
\<close>

definition buffers_ok :: "server \<Rightarrow> bool" where
  "buffers_ok sv = (\<forall>s l. threads sv s = Some l \<longrightarrow> length (buffer l) = BUFSZ)"

fun fresh_accepts :: "(SOCKET \<Rightarrow> bool) \<Rightarrow> event list \<Rightarrow> server \<Rightarrow> bool" where
  "fresh_accepts up [] sv = True"
| "fresh_accepts up (e # es) sv =
     ((case e of Accept s \<Rightarrow> s \<notin> set (clients sv) | Recv s inc \<Rightarrow> True)
      \<and> (case step up e sv of None \<Rightarrow> True | Some sv' \<Rightarrow> fresh_accepts up es sv'))"

text \<open>
  For a client that stays silent: the events that are not its own, what is written to the
  handles other than its own, and how a server state \<open>A\<close> with the silent client \<open>s\<close>
  registered stands to the state \<open>B\<close> of the same server had \<open>s\<close> never connected.
\<close>

fun others_only :: "SOCKET \<Rightarrow> event list \<Rightarrow> bool" where
  "others_only s [] = True"
| "others_only s (Accept t # es) = (t \<noteq> s \<and> others_only s es)"
| "others_only s (Recv t inc # es) = (t \<noteq> s \<and> others_only s es)"

definition sent_to_others :: "SOCKET \<Rightarrow> wire \<Rightarrow> wire" where
  "sent_to_others s w = filter (\<lambda>c. fst c \<noteq> s) w"

definition shadow :: "SOCKET \<Rightarrow> server \<Rightarrow> server \<Rightarrow> bool" where
  "shadow s A B =
     (remove1 s (clients A) = clients B \<and> s \<in> set (clients A) \<and> s \<notin> set (clients B)
      \<and> threads A s = Some new_thread \<and> (\<forall>t. t \<noteq> s \<longrightarrow> threads A t = threads B t)
      \<and> sent_to_others s (wire A) = sent_to_others s (wire B))"

text \<open>Alice and Bob are connected and have announced themselves.\<close>

definition alice_and_bob :: server where
  "alice_and_bob =
     \<lparr>clients = [1, 2],
      threads = [1 \<mapsto> new_thread\<lparr>clientName := ''Alice''\<rparr>,
                 2 \<mapsto> new_thread\<lparr>clientName := ''Bob''\<rparr>],
      wire = [(2, ''Alice connected.''), (1, ''Bob connected.'')]\<rparr>"

section \<open>The broadcast loop, in closed form\<close>

lemma broadcast_loop_eq:
  "broadcast_loop up cs msg cl w = w @ map (\<lambda>c. (c, msg)) (filter (\<lambda>c. c \<noteq> cs) cl)"
  by (induction cl arbitrary: w) (simp_all add: send_sock_def)

section \<open>Facts about the environment and the buffer\<close>

lemma c_string_cut: "c_string (xs @ NUL # ys) = c_string xs"
  by (induction xs) (auto simp: c_string_def)

lemma c_string_no_NUL: "NUL \<notin> set xs \<Longrightarrow> c_string xs = xs"
  by (induction xs) (auto simp: c_string_def)

lemma length_c_string: "length (c_string xs) \<le> length xs"
  by (simp add: c_string_def length_takeWhile_le)

lemma take_fits: "length d \<le> 4095 \<Longrightarrow> take (BUFSZ - Suc 0) d = d"
  by (simp add: BUFSZ_def)

lemma length_take_BUFSZ: "length (take (BUFSZ - 1) d) \<le> 4095"
  by (simp add: BUFSZ_def)

lemma length_refill:
  "length buf = BUFSZ \<Longrightarrow> length d \<le> 4095 \<Longrightarrow> length (refill d buf) = BUFSZ"
  by (simp add: refill_def BUFSZ_def)

lemma length_new_thread: "length (buffer new_thread) = BUFSZ"
  by (simp add: new_thread_def)

lemma store_after_recv:
  assumes "length buf = BUFSZ" "length got \<le> 4095"
  shows "store (got @ drop (length got) buf) (int (length got)) c
         = Some (got @ c # drop (Suc (length got)) buf)"
proof -
  have lt: "length got < length buf" using assms by (simp add: BUFSZ_def)
  then have "drop (length got) buf = buf ! length got # drop (Suc (length got)) buf"
    by (simp add: Cons_nth_drop_Suc)
  then have "(got @ drop (length got) buf)[length got := c]
             = got @ c # drop (Suc (length got)) buf"
    by (simp add: list_update_append)
  then show ?thesis using lt by (simp add: store_def)
qed

lemma recv_sock_Bytes:
  "recv_sock (Bytes d) buf (BUFSZ - 1)
   = (int (length (take (BUFSZ - 1) d)),
      take (BUFSZ - 1) d @ drop (length (take (BUFSZ - 1) d)) buf)"
  by (simp add: recv_sock_def Let_def)

section \<open>One iteration, in closed form\<close>

lemma HandleClient_body_Bytes:
  assumes "length (buffer l) = BUFSZ" "d \<noteq> []"
  shows "HandleClient_body up cs cl (Bytes d) l w =
    (let message = c_string (take (BUFSZ - 1) d);
         buf2 = refill (take (BUFSZ - 1) d) (buffer l)
     in if take (length connectPrefix) message = connectPrefix
        then Continue (l\<lparr>buffer := buf2, clientName := drop (length connectPrefix) message\<rparr>)
               (w @ map (\<lambda>c. (c, drop (length connectPrefix) message @ '' connected.''))
                        (filter (\<lambda>c. c \<noteq> cs) cl))
        else Continue (l\<lparr>buffer := buf2\<rparr>)
               (w @ map (\<lambda>c. (c, message)) (filter (\<lambda>c. c \<noteq> cs) cl)))"
proof -
  define got where "got = take (BUFSZ - 1) d"
  have pos: "0 < length got" using assms(2) by (simp add: got_def BUFSZ_def)
  have r: "recv_sock (Bytes d) (buffer l) (BUFSZ - 1)
           = (int (length got), got @ drop (length got) (buffer l))"
    unfolding got_def by (rule recv_sock_Bytes)
  have "length got \<le> 4095" unfolding got_def by (rule length_take_BUFSZ)
  then have s: "store (got @ drop (length got) (buffer l)) (int (length got)) NUL
                = Some (refill got (buffer l))"
    using store_after_recv [OF assms(1)] by (simp add: refill_def)
  have len: "take (length connectPrefix) (c_string got) = connectPrefix
             \<Longrightarrow> length connectPrefix \<le> length (c_string got)"
    by (metis length_take min.cobounded1)
  have c: "c_string (refill got (buffer l)) = c_string got"
    by (simp add: refill_def c_string_cut)
  show ?thesis
    unfolding HandleClient_body_def got_def [symmetric] r
    using pos len
    by (simp add: s c compare0_def substr_def broadcast_loop_eq Let_def)
qed

lemma HandleClient_body_end:
  "inc = Closed \<or> inc = Reset \<or> inc = Bytes [] \<Longrightarrow> HandleClient_body up cs cl inc l w = Break"
  by (auto simp: HandleClient_body_def recv_sock_def SOCKET_ERROR_def)

lemma HandleClient_body_no_Fault:
  "length (buffer l) = BUFSZ \<Longrightarrow> HandleClient_body up cs cl inc l w \<noteq> Fault"
proof (cases inc)
  case (Bytes d)
  assume "length (buffer l) = BUFSZ"
  then show ?thesis
    using Bytes HandleClient_body_Bytes [of l d up cs cl w] HandleClient_body_end [of inc up cs cl l w]
    by (cases "d = []") (simp_all add: Let_def)
qed (simp_all add: HandleClient_body_end)

section \<open>The registry\<close>

lemma find_pos_notin: "h \<notin> set r \<Longrightarrow> find_pos r h = length r"
  by (induction r) auto

lemma find_pos_in: "h \<in> set r \<Longrightarrow> find_pos r h < length r"
  by (induction r) auto

lemma erase_find_pos:
  "h \<in> set r \<Longrightarrow> take (find_pos r h) r @ drop (Suc (find_pos r h)) r = remove1 h r"
  by (induction r) auto

lemma remove_client_eq: "remove_client r h = Some (remove1 h r)"
proof (cases "h \<in> set r")
  case True
  then show ?thesis
    using find_pos_in [OF True] by (simp add: remove_client_def erase_def erase_find_pos)
next
  case False
  then show ?thesis
    by (simp add: remove_client_def find_pos_notin remove1_idem)
qed

lemma count_recipients:
  "distinct cl \<Longrightarrow>
   count_list (map (\<lambda>c. (c, m)) (filter (\<lambda>c. c \<noteq> cs) cl)) (c, m)
   = (if c \<in> set cl \<and> c \<noteq> cs then 1 else 0)"
  by (induction cl) auto

lemma notice_not_announcement: "X @ '' connected.'' \<noteq> connectPrefix @ X"
proof
  assume "X @ '' connected.'' = connectPrefix @ X"
  then have "count_list (X @ '' connected.'') (CHR ''.'') = count_list (connectPrefix @ X) (CHR ''.'')"
    by simp
  then show False by (simp add: connectPrefix_def)
qed

lemma delivered_append: "delivered up (w @ v) = delivered up w @ delivered up v"
  by (simp add: delivered_def)

lemma delivered_map:
  "delivered up (map (\<lambda>c. (c, m)) (filter (\<lambda>c. c \<noteq> cs) cl))
   = map (\<lambda>c. (c, m)) (filter (\<lambda>c. c \<noteq> cs \<and> up c) cl)"
  by (induction cl) (auto simp: delivered_def)

lemma step_Accept:
  "s \<noteq> INVALID_SOCKET \<Longrightarrow>
   step up (Accept s) sv
   = Some (sv\<lparr>clients := clients sv @ [s], threads := (threads sv)(s \<mapsto> new_thread)\<rparr>)"
  by (simp add: step_def)

lemma step_Recv_end:
  "threads sv s = Some l \<Longrightarrow> inc = Closed \<or> inc = Reset \<or> inc = Bytes [] \<Longrightarrow>
   step up (Recv s inc) sv
   = Some (sv\<lparr>clients := remove1 s (clients sv), threads := (threads sv)(s := None)\<rparr>)"
  by (simp add: step_def HandleClient_body_end remove_client_eq)

subsection \<open>The invariants hold along every run\<close>

lemma step_buffers_ok:
  assumes "buffers_ok sv"
  shows "\<exists>sv'. step up e sv = Some sv' \<and> buffers_ok sv'"
proof (cases e)
  case (Accept s)
  then show ?thesis
    using assms by (auto simp: step_def buffers_ok_def length_new_thread)
next
  case (Recv s inc)
  show ?thesis
  proof (cases "threads sv s")
    case None
    then show ?thesis using Recv assms by (simp add: step_def)
  next
    case (Some l)
    then have len: "length (buffer l) = BUFSZ" using assms by (simp add: buffers_ok_def)
    show ?thesis
    proof (cases "inc = Closed \<or> inc = Reset \<or> inc = Bytes []")
      case True
      then show ?thesis
        using Recv Some assms step_Recv_end [OF Some True, of up]
        by (auto simp: buffers_ok_def)
    next
      case False
      then obtain d where d: "inc = Bytes d" "d \<noteq> []" by (cases inc) auto
      have "length (refill (take (BUFSZ - 1) d) (buffer l)) = BUFSZ"
        using len length_take_BUFSZ by (rule length_refill)
      then show ?thesis
        using Recv Some assms d HandleClient_body_Bytes [OF len d(2), of up s "clients sv" "wire sv"]
        by (auto simp: step_def buffers_ok_def Let_def)
    qed
  qed
qed

lemma run_buffers_ok:
  "buffers_ok sv \<Longrightarrow> \<exists>sv'. run up es sv = Some sv' \<and> buffers_ok sv'"
proof (induction es arbitrary: sv)
  case Nil
  then show ?case by simp
next
  case (Cons e es)
  from step_buffers_ok [OF Cons.prems, of up e]
  obtain sv1 where "step up e sv = Some sv1" "buffers_ok sv1" by blast
  then show ?case using Cons.IH [of sv1] by simp
qed

lemma step_clients:
  "step up e sv = Some sv' \<Longrightarrow>
   clients sv' = clients sv
   \<or> (\<exists>s. e = Accept s \<and> clients sv' = clients sv @ [s])
   \<or> (\<exists>s inc. e = Recv s inc \<and> clients sv' = remove1 s (clients sv))"
  by (cases e)
     (auto simp: step_def remove_client_eq split: if_splits option.splits iteration.splits)

lemma run_distinct:
  "distinct (clients sv) \<Longrightarrow> fresh_accepts up es sv \<Longrightarrow> run up es sv = Some sv' \<Longrightarrow>
   distinct (clients sv')"
proof (induction es arbitrary: sv)
  case Nil
  then show ?case by simp
next
  case (Cons e es)
  from Cons.prems(3) obtain sv1 where s1: "step up e sv = Some sv1" "run up es sv1 = Some sv'"
    by (auto split: option.splits)
  have "distinct (clients sv1)"
    using step_clients [OF s1(1)] Cons.prems(1,2) by auto
  moreover have "fresh_accepts up es sv1" using Cons.prems(2) s1(1) by simp
  ultimately show ?case using Cons.IH s1(2) by blast
qed

lemmas trace_eval =
  step_def HandleClient_body_Bytes HandleClient_body_end remove_client_eq
  length_new_thread length_refill take_fits c_string_def NUL_def connectPrefix_def
  INVALID_SOCKET_def server_start_def names_of_def run_view_def new_thread_def Let_def

section \<open>The client's calls of send\<close>





lemma sendMesg_loop_empty_line:
  "sendMesg_loop up s name ([] # rest) unterminated w = sendMesg_loop up s name rest unterminated w"
  by simp




section \<open>A silent client leaves no trace\<close>

lemma run_append:
  "run up (es @ fs) sv = (case run up es sv of None \<Rightarrow> None | Some sv' \<Rightarrow> run up fs sv')"
  by (induction es arbitrary: sv) (simp_all split: option.splits)

lemma HandleClient_body_shape:
  "\<exists>r. \<forall>cl w. HandleClient_body up cs cl inc l w =
     (case r of
        None \<Rightarrow> Break
      | Some None \<Rightarrow> Fault
      | Some (Some (l', out)) \<Rightarrow> Continue l' (broadcast_loop up cs out cl w))"
proof -
  obtain n b where r: "recv_sock inc (buffer l) (BUFSZ - 1) = (n, b)" by force
  show ?thesis
  proof (cases "n \<le> 0")
    case True
    then show ?thesis
      using r by (intro exI [of _ None]) (simp add: HandleClient_body_def)
  next
    case pos: False
    show ?thesis
    proof (cases "store b n NUL")
      case None
      then show ?thesis
        using r pos by (intro exI [of _ "Some None"]) (simp add: HandleClient_body_def)
    next
      case (Some buf2)
      show ?thesis
      proof (cases "compare0 (c_string buf2) (length connectPrefix) connectPrefix")
        case False
        then show ?thesis
          using r pos Some
          by (intro exI [of _ "Some (Some (l\<lparr>buffer := buf2\<rparr>, c_string buf2))"])
             (simp add: HandleClient_body_def)
      next
        case True
        show ?thesis
        proof (cases "substr (c_string buf2) (length connectPrefix)")
          case None
          then show ?thesis
            using r pos Some True
            by (intro exI [of _ "Some None"]) (simp add: HandleClient_body_def)
        next
          case (Some name)
          then show ?thesis
            using r pos \<open>store b n NUL = Some buf2\<close> True
            by (intro exI [of _ "Some (Some (l\<lparr>buffer := buf2, clientName := name\<rparr>,
                                             name @ '' connected.''))"])
               (simp add: HandleClient_body_def)
        qed
      qed
    qed
  qed
qed

lemma sent_to_others_append:
  "sent_to_others s (w @ v) = sent_to_others s w @ sent_to_others s v"
  by (simp add: sent_to_others_def)

lemma sent_to_others_broadcast:
  "sent_to_others s (map (\<lambda>c. (c, m)) (filter (\<lambda>c. c \<noteq> t) (remove1 s cl)))
   = sent_to_others s (map (\<lambda>c. (c, m)) (filter (\<lambda>c. c \<noteq> t) cl))"
  by (induction cl) (auto simp: sent_to_others_def)

lemma step_shadow:
  assumes "shadow s A B" and "others_only s [e]" and "step up e B = Some B'"
  shows "\<exists>A'. step up e A = Some A' \<and> shadow s A' B'"
proof (cases e)
  case (Accept t)
  then have ts: "t \<noteq> s" using assms(2) by simp
  show ?thesis
  proof (cases "t = INVALID_SOCKET")
    case True
    then show ?thesis using Accept assms(1,3) by (simp add: step_def)
  next
    case False
    then show ?thesis
      using Accept assms(1,3) ts
      by (auto simp: step_def shadow_def remove1_append)
  qed
next
  case (Recv t inc)
  then have ts: "t \<noteq> s" using assms(2) by simp
  then have th: "threads A t = threads B t" using assms(1) by (simp add: shadow_def)
  show ?thesis
  proof (cases "threads B t")
    case None
    then show ?thesis using Recv assms(1,3) th by (simp add: step_def)
  next
    case (Some l)
    from HandleClient_body_shape [of up t inc l] obtain r where r:
      "\<And>cl w. HandleClient_body up t cl inc l w =
         (case r of
            None \<Rightarrow> Break
          | Some None \<Rightarrow> Fault
          | Some (Some (l', out)) \<Rightarrow> Continue l' (broadcast_loop up t out cl w))"
      by blast
    show ?thesis
    proof (cases r)
      case None
      have "B' = B\<lparr>clients := remove1 t (clients B), threads := (threads B)(t := None)\<rparr>"
        using assms(3) Recv Some r None by (simp add: step_def remove_client_eq)
      moreover have "step up e A
            = Some (A\<lparr>clients := remove1 t (clients A), threads := (threads A)(t := None)\<rparr>)"
        using Recv Some th r None by (simp add: step_def remove_client_eq)
      moreover have "remove1 s (remove1 t (clients A)) = remove1 t (clients B)"
        using assms(1) by (metis remove1_commute shadow_def)
      moreover have "s \<in> set (remove1 t (clients A))"
        using assms(1) ts by (simp add: shadow_def)
      moreover have "s \<notin> set (remove1 t (clients B))"
        using assms(1) by (metis notin_set_remove1 shadow_def)
      ultimately show ?thesis
        using assms(1) ts by (simp add: shadow_def)
    next
      case outer: (Some r')
      show ?thesis
      proof (cases r')
        case None
        then show ?thesis
          using assms(3) Recv Some r outer by (simp add: step_def)
      next
        case inner: (Some p)
        obtain l' out where p: "p = (l', out)" by force
        have "B' = B\<lparr>threads := (threads B)(t \<mapsto> l'),
                      wire := broadcast_loop up t out (clients B) (wire B)\<rparr>"
          using assms(3) Recv Some r outer inner p by (simp add: step_def)
        moreover have "step up e A
            = Some (A\<lparr>threads := (threads A)(t \<mapsto> l'),
                      wire := broadcast_loop up t out (clients A) (wire A)\<rparr>)"
          using Recv Some th r outer inner p by (simp add: step_def)
        moreover have "sent_to_others s (broadcast_loop up t out (clients A) (wire A))
                       = sent_to_others s (broadcast_loop up t out (clients B) (wire B))"
        proof -
          have "clients B = remove1 s (clients A)" using assms(1) by (simp add: shadow_def)
          moreover have "sent_to_others s (wire A) = sent_to_others s (wire B)"
            using assms(1) by (simp add: shadow_def)
          ultimately show ?thesis
            by (simp add: broadcast_loop_eq sent_to_others_append sent_to_others_broadcast)
        qed
        ultimately show ?thesis
          using assms(1) ts by (simp add: shadow_def)
      qed
    qed
  qed
qed

lemma run_shadow:
  "shadow s A B \<Longrightarrow> others_only s es \<Longrightarrow> run up es B = Some B' \<Longrightarrow>
   \<exists>A'. run up es A = Some A' \<and> shadow s A' B'"
proof (induction es arbitrary: A B)
  case Nil
  then show ?case by simp
next
  case (Cons e es)
  from Cons.prems(3) obtain B1 where b: "step up e B = Some B1" "run up es B1 = Some B'"
    by (auto split: option.splits)
  have o: "others_only s [e]" "others_only s es"
    using Cons.prems(2) by (cases e; simp)+
  from step_shadow [OF Cons.prems(1) o(1) b(1)]
  obtain A1 where a: "step up e A = Some A1" "shadow s A1 B1" by blast
  from Cons.IH [OF a(2) o(2) b(2)] obtain A' where "run up es A1 = Some A'" "shadow s A' B'"
    by blast
  then show ?case using a(1) by simp
qed

lemma shadow_after_Accept:
  "s \<noteq> INVALID_SOCKET \<Longrightarrow> s \<notin> set (clients sv) \<Longrightarrow>
   \<exists>A. step up (Accept s) sv = Some A \<and> shadow s A sv"
  by (simp add: step_def shadow_def remove1_append)

lemma buffers_ok_alice_and_bob: "buffers_ok alice_and_bob"
  by (simp add: buffers_ok_def alice_and_bob_def new_thread_def)

section \<open>The claims\<close>

text \<open>
  C1. Whatever the registry, the sender, the message and the state of the network, the
  calls of \<open>send\<close> the broadcast loop issues carry the message to exactly the registered
  handles that differ from the sender's: the recipients are the registry without the
  sender, so the sender is not among them, and every call carries the message.
\<close>

theorem C1_broadcast_to_all_but_sender:
  "broadcast_loop up cs msg cl w = w @ map (\<lambda>c. (c, msg)) (filter (\<lambda>c. c \<noteq> cs) cl)
   \<and> set (map (\<lambda>c. (c, msg)) (filter (\<lambda>c. c \<noteq> cs) cl)) = (\<lambda>c. (c, msg)) ` (set cl - {cs})
   \<and> (cs, msg) \<notin> set (map (\<lambda>c. (c, msg)) (filter (\<lambda>c. c \<noteq> cs) cl))"
  by (auto simp: broadcast_loop_eq)




text \<open>
  C3, as stated, fails. After Alice and Bob have announced themselves a third client is
  accepted and sends nothing: its handle is in the registry at once (and a line from
  Alice is written to it).
\<close>

theorem C3_registered_on_accept:
  "run_view all_up
     [Accept 1, Accept 2, Recv 1 (Bytes ''__CONNECT__Alice''),
      Recv 2 (Bytes ''__CONNECT__Bob''), Accept 3, Recv 1 (Bytes ''hi'')] server_start
   = Some ([(1, Some ''Alice''), (2, Some ''Bob''), (3, Some ''Unknown'')],
           [(2, ''Alice connected.''), (1, ''Bob connected.''), (2, ''hi''), (3, ''hi'')])"
  by (simp add: trace_eval)

text \<open>
  C3, amended. The acceptor loop adds a handle to the registry when it accepts the
  connection, before any message. Take a client \<open>s\<close> that is accepted, sends nothing,
  and whose read then finds the connection closed or failed, and let the other sessions
  do what they will in between (\<open>es\<close>: accepts and reads of other handles). Then the
  handle of \<open>s\<close> is in the registry from the accept up to that read, whenever that is;
  and after it the handle is gone, its thread is gone, and the registry, the threads of
  the others and everything written to the others are exactly what the same events
  give without \<open>s\<close> ever connecting. So no other session is sent any notice about it.
\<close>

theorem C3_silent_client:
  assumes "s \<noteq> INVALID_SOCKET" and "s \<notin> set (clients sv)"
    and "others_only s es" and "inc = Closed \<or> inc = Reset"
    and "run up es sv = Some sv0"
  shows "\<exists>sv1 sv2. run up (Accept s # es) sv = Some sv1
           \<and> s \<in> set (clients sv1)
           \<and> run up (Accept s # es @ [Recv s inc]) sv = Some sv2
           \<and> clients sv2 = clients sv0 \<and> s \<notin> set (clients sv2)
           \<and> threads sv2 s = None \<and> (\<forall>t. t \<noteq> s \<longrightarrow> threads sv2 t = threads sv0 t)
           \<and> sent_to_others s (wire sv2) = sent_to_others s (wire sv0)"
proof -
  from shadow_after_Accept [OF assms(1,2), of up]
  obtain A where a: "step up (Accept s) sv = Some A" "shadow s A sv" by blast
  from run_shadow [OF a(2) assms(3,5)]
  obtain sv1 where s1: "run up es A = Some sv1" "shadow s sv1 sv0" by blast
  have t: "threads sv1 s = Some new_thread" using s1(2) by (simp add: shadow_def)
  have e: "inc = Closed \<or> inc = Reset \<or> inc = Bytes []" using assms(4) by blast
  let ?sv2 = "sv1\<lparr>clients := remove1 s (clients sv1), threads := (threads sv1)(s := None)\<rparr>"
  have s2: "step up (Recv s inc) sv1 = Some ?sv2"
    using t e by (rule step_Recv_end)
  have r1: "run up (Accept s # es) sv = Some sv1" using a(1) s1(1) by simp
  have r2: "run up (Accept s # es @ [Recv s inc]) sv = Some ?sv2"
    using a(1) s1(1) s2 by (simp add: run_append)
  have "s \<in> set (clients sv1)" "clients ?sv2 = clients sv0" "s \<notin> set (clients ?sv2)"
    "threads ?sv2 s = None" "\<forall>t. t \<noteq> s \<longrightarrow> threads ?sv2 t = threads sv0 t"
    "sent_to_others s (wire ?sv2) = sent_to_others s (wire sv0)"
    using s1(2) by (simp_all add: shadow_def)
  then show ?thesis using r1 r2 by blast
qed

theorem C3_silent_client_witness:
  "\<exists>sv1 sv2.
     run all_up (Accept 3 # [Recv 1 (Bytes ''hi''), Accept 4]) alice_and_bob = Some sv1
     \<and> 3 \<in> set (clients sv1)
     \<and> run all_up (Accept 3 # [Recv 1 (Bytes ''hi''), Accept 4] @ [Recv 3 Closed]) alice_and_bob
       = Some sv2
     \<and> clients sv2 = [1, 2, 4] \<and> 3 \<notin> set (clients sv2) \<and> threads sv2 3 = None
     \<and> sent_to_others 3 (wire sv2)
       = [(2, ''Alice connected.''), (1, ''Bob connected.''), (2, ''hi'')]"
proof -
  have "map_option (\<lambda>sv. (clients sv, wire sv))
          (run all_up [Recv 1 (Bytes ''hi''), Accept 4] alice_and_bob)
        = Some ([1, 2, 4], [(2, ''Alice connected.''), (1, ''Bob connected.''), (2, ''hi'')])"
    by (simp add: trace_eval alice_and_bob_def)
  then obtain sv0 where r0: "run all_up [Recv 1 (Bytes ''hi''), Accept 4] alice_and_bob = Some sv0"
    and c0: "clients sv0 = [1, 2, 4]"
    and w0: "wire sv0 = [(2, ''Alice connected.''), (1, ''Bob connected.''), (2, ''hi'')]"
    by auto
  have h1: "(3 :: SOCKET) \<noteq> INVALID_SOCKET" by (simp add: INVALID_SOCKET_def)
  have h2: "3 \<notin> set (clients alice_and_bob)" by (simp add: alice_and_bob_def)
  have h3: "others_only 3 [Recv 1 (Bytes ''hi''), Accept 4]" by simp
  have h4: "Closed = Closed \<or> Closed = Reset" by simp
  have f: "sent_to_others 3 [(2, ''Alice connected.''), (1, ''Bob connected.''), (2, ''hi'')]
           = [(2, ''Alice connected.''), (1, ''Bob connected.''), (2, ''hi'')]"
    by (simp add: sent_to_others_def)
  show ?thesis
    using C3_silent_client [OF h1 h2 h3 h4 r0, unfolded c0 w0 f] by blast
qed

text \<open>
  C4. The server reads a message that is the marker followed by \<open>X\<close>, and no handle is
  registered twice. Then the iteration goes on with the thread's name set to \<open>X\<close>; the
  calls of \<open>send\<close> it issues are one call with \<open>X connected.\<close> for every registered handle
  other than the sender's and none for any other handle; every call carries that notice;
  and the announcement itself is written to nobody.
\<close>

theorem C4_one_notice_each:
  assumes "length (buffer l) = BUFSZ" and "distinct cl" and "d \<noteq> []"
    and "c_string (take (BUFSZ - 1) d) = connectPrefix @ X"
  shows "\<exists>l' news. HandleClient_body up cs cl (Bytes d) l w = Continue l' (w @ news)
           \<and> clientName l' = X
           \<and> (\<forall>c. count_list news (c, X @ '' connected.'')
                   = (if c \<in> set cl \<and> c \<noteq> cs then 1 else 0))
           \<and> (\<forall>p \<in> set news. snd p = X @ '' connected.'')
           \<and> (\<forall>c. (c, connectPrefix @ X) \<notin> set news)"
proof -
  let ?news = "map (\<lambda>c. (c, X @ '' connected.'')) (filter (\<lambda>c. c \<noteq> cs) cl)"
  have "HandleClient_body up cs cl (Bytes d) l w
        = Continue (l\<lparr>buffer := refill (take (BUFSZ - 1) d) (buffer l), clientName := X\<rparr>)
                   (w @ ?news)"
    using HandleClient_body_Bytes [OF assms(1,3), of up cs cl w] assms(4)
    by (simp add: Let_def)
  moreover have "\<forall>c. count_list ?news (c, X @ '' connected.'')
                     = (if c \<in> set cl \<and> c \<noteq> cs then 1 else 0)"
    by (simp add: count_recipients [OF assms(2)])
  moreover have "\<forall>p \<in> set ?news. snd p = X @ '' connected.''" by auto
  moreover have "\<forall>c. (c, connectPrefix @ X) \<notin> set ?news"
    using notice_not_announcement [of X] by auto
  ultimately show ?thesis by force
qed

theorem C4_one_notice_each_witness:
  "\<exists>l' news. HandleClient_body all_up 1 [1, 2, 3] (Bytes ''__CONNECT__Alice'') new_thread []
               = Continue l' ([] @ news)
     \<and> clientName l' = ''Alice''
     \<and> (\<forall>c. count_list news (c, ''Alice'' @ '' connected.'')
             = (if c \<in> set [1, 2, 3] \<and> c \<noteq> 1 then 1 else 0))
     \<and> (\<forall>p \<in> set news. snd p = ''Alice'' @ '' connected.'')
     \<and> (\<forall>c. (c, connectPrefix @ ''Alice'') \<notin> set news)"
proof -
  have h1: "length (buffer new_thread) = BUFSZ" by (rule length_new_thread)
  have h2: "distinct [1, 2, 3 :: SOCKET]" by simp
  have h3: "''__CONNECT__Alice'' \<noteq> []" by simp
  have h4: "c_string (take (BUFSZ - 1) ''__CONNECT__Alice'') = connectPrefix @ ''Alice''"
    by (simp add: take_fits c_string_def NUL_def connectPrefix_def)
  show ?thesis
    using C4_one_notice_each [OF h1 h2 h3 h4, of all_up 1 "[]"] .
qed

text \<open>
  C5, as stated, fails. Client 1 announces Alice, sends a line, and then sends a second
  message that begins with the marker: its thread's name becomes Bob and client 2 is
  sent a second notice.
\<close>

theorem C5_later_marker_renames:
  "run_view all_up
     [Accept 1, Accept 2, Recv 1 (Bytes ''__CONNECT__Alice''), Recv 1 (Bytes ''hello''),
      Recv 1 (Bytes ''__CONNECT__Bob'')] server_start
   = Some ([(1, Some ''Bob''), (2, Some ''Unknown'')],
           [(2, ''Alice connected.''), (2, ''hello''), (2, ''Bob connected.'')])"
  by (simp add: trace_eval)

text \<open>
  C5, amended. A thread starts with the name \<open>Unknown\<close>. Every message the server reads,
  the first of a session or a later one and whatever name the thread holds, is treated by
  the same rule: when it begins with the marker, the rest of it becomes the thread's name
  and \<open>name connected.\<close> is written to the other registered handles; otherwise the name
  stays as it is and the message is written to the other registered handles.
\<close>

theorem C5_same_rule_every_message:
  assumes "length (buffer l) = BUFSZ" and "d \<noteq> []"
  shows "clientName new_thread = ''Unknown''
         \<and> (let message = c_string (take (BUFSZ - 1) d);
                 announces = (take (length connectPrefix) message = connectPrefix);
                 name = drop (length connectPrefix) message
             in \<exists>l'. HandleClient_body up cs cl (Bytes d) l w
                      = Continue l'
                          (w @ map (\<lambda>c. (c, if announces then name @ '' connected.'' else message))
                                   (filter (\<lambda>c. c \<noteq> cs) cl))
                    \<and> clientName l' = (if announces then name else clientName l))"
  using HandleClient_body_Bytes [OF assms, of up cs cl w]
  by (simp add: Let_def new_thread_def)

theorem C5_same_rule_every_message_witness:
  "\<exists>l'. HandleClient_body all_up 1 [1, 2] (Bytes ''__CONNECT__Bob'')
            (new_thread\<lparr>clientName := ''Alice''\<rparr>) []
          = Continue l' [(2, ''Bob connected.'')]
        \<and> clientName l' = ''Bob''"
  using C5_same_rule_every_message [of "new_thread\<lparr>clientName := ''Alice''\<rparr>"
      "''__CONNECT__Bob''" all_up 1 "[1, 2]" "[]"]
  by (simp add: new_thread_def take_fits c_string_def NUL_def connectPrefix_def Let_def)

text \<open>
  C6, as stated, fails. Three clients are registered and every write to client 2 fails.
  A line read from client 1 is written to client 2 (the write fails) and then to
  client 3, and client 2 is still in the registry afterwards.
\<close>

theorem C6_failed_peer_stays:
  "fst (send_sock except_2 2 ''hello'' []) = SOCKET_ERROR
   \<and> run_view except_2 [Accept 1, Accept 2, Accept 3, Recv 1 (Bytes ''hello'')] server_start
     = Some ([(1, Some ''Unknown''), (2, Some ''Unknown''), (3, Some ''Unknown'')],
             [(2, ''hello''), (3, ''hello'')])"
  by (simp add: trace_eval send_sock_def except_2_def)

text \<open>
  C6, amended. The result of a write is not looked at. Whatever writes fail, an
  iteration that reads a message leaves the registry as it is, calls \<open>send\<close> for every
  registered handle other than the sender's, and the text reaches every one of them
  whose write succeeds: a failed write to one peer does not stop the writes to the
  others, and the failed peer stays in the registry.
\<close>

theorem C6_failed_write_ignored:
  assumes "threads sv s = Some l" and "length (buffer l) = BUFSZ" and "d \<noteq> []"
  shows "\<exists>sv' out. step up (Recv s (Bytes d)) sv = Some sv'
           \<and> clients sv' = clients sv
           \<and> wire sv' = wire sv @ map (\<lambda>c. (c, out)) (filter (\<lambda>c. c \<noteq> s) (clients sv))
           \<and> delivered up (wire sv')
             = delivered up (wire sv)
               @ map (\<lambda>c. (c, out)) (filter (\<lambda>c. c \<noteq> s \<and> up c) (clients sv))"
proof (cases "take (length connectPrefix) (c_string (take (BUFSZ - 1) d)) = connectPrefix")
  case True
  then show ?thesis
    using assms(1) HandleClient_body_Bytes [OF assms(2,3), of up s "clients sv" "wire sv"]
    by (auto simp: step_def Let_def delivered_append delivered_map)
next
  case False
  then show ?thesis
    using assms(1) HandleClient_body_Bytes [OF assms(2,3), of up s "clients sv" "wire sv"]
    by (auto simp: step_def Let_def delivered_append delivered_map)
qed

theorem C6_failed_write_ignored_witness:
  "\<exists>sv' out. step except_2 (Recv 1 (Bytes ''hello''))
        \<lparr>clients = [1, 2, 3], threads = [1 \<mapsto> new_thread], wire = []\<rparr> = Some sv'
     \<and> clients sv' = [1, 2, 3]
     \<and> wire sv' = map (\<lambda>c. (c, out)) [2, 3]
     \<and> delivered except_2 (wire sv') = map (\<lambda>c. (c, out)) [3]"
  using C6_failed_write_ignored [of "\<lparr>clients = [1, 2, 3], threads = [1 \<mapsto> new_thread], wire = []\<rparr>"
      1 new_thread "''hello''" except_2]
  by (simp add: length_new_thread except_2_def delivered_def)

text \<open>
  C8. Both receive loops call \<open>recv\<close> with room for \<open>sizeof(buffer) - 1\<close> bytes. Whatever
  the connection holds, the count returned is at most 4095, the buffer keeps its 4096
  bytes, and for every count that is not negative the store of the terminator at that
  index is inside the buffer and leaves a message of at most 4095 bytes. So the
  iteration of the client's loop never stores out of bounds, and that of the server's
  loop never faults.
\<close>

theorem C8_terminator_in_bounds:
  assumes "length buf = BUFSZ" and "recv_sock inc buf (BUFSZ - 1) = (n, buf1)"
  shows "n \<le> 4095 \<and> length buf1 = 4096
         \<and> (0 \<le> n \<longrightarrow> (\<exists>buf2. store buf1 n NUL = Some buf2 \<and> length (c_string buf2) \<le> 4095))
         \<and> recvMesg_body inc buf \<noteq> OutOfBounds
         \<and> HandleClient_body up cs cl inc (l\<lparr>buffer := buf\<rparr>) w \<noteq> Fault"
proof -
  have nb: "n \<le> 4095" and lb: "length buf1 = 4096"
    using assms by (cases inc; auto simp: recv_sock_def Let_def SOCKET_ERROR_def BUFSZ_def)+
  have st: "\<exists>buf2. store buf1 n NUL = Some buf2 \<and> length (c_string buf2) \<le> 4095"
    if pos: "0 \<le> n"
  proof -
    have i: "nat n < length buf1" using nb lb pos by simp
    then obtain buf2 where b2: "store buf1 n NUL = Some buf2" "buf2 = buf1[nat n := NUL]"
      using pos by (simp add: store_def)
    have "buf2 = take (nat n) buf1 @ NUL # drop (Suc (nat n)) buf1"
      using i b2(2) by (simp add: upd_conv_take_nth_drop)
    then have "c_string buf2 = c_string (take (nat n) buf1)"
      by (simp add: c_string_cut)
    then have "length (c_string buf2) \<le> nat n"
      using length_c_string [of "take (nat n) buf1"] by simp
    then show ?thesis using b2(1) nb by simp
  qed
  have cl: "recvMesg_body inc buf \<noteq> OutOfBounds"
    using assms(2) st by (auto simp: recvMesg_body_def)
  have sv: "HandleClient_body up cs cl inc (l\<lparr>buffer := buf\<rparr>) w \<noteq> Fault"
    using assms(1) by (simp add: HandleClient_body_no_Fault)
  show ?thesis using nb lb st cl sv by blast
qed

theorem C8_terminator_in_bounds_witness:
  "length (replicate BUFSZ NUL) = BUFSZ
   \<and> fst (recv_sock (Bytes ''hi'') (replicate BUFSZ NUL) (BUFSZ - 1)) = 2
   \<and> recvMesg_body (Bytes ''hi'') (replicate BUFSZ NUL) \<noteq> OutOfBounds
   \<and> HandleClient_body all_up 1 [1, 2] (Bytes ''hi'')
        (new_thread\<lparr>buffer := replicate BUFSZ NUL\<rparr>) [] \<noteq> Fault"
proof -
  let ?r = "recv_sock (Bytes ''hi'') (replicate BUFSZ NUL) (BUFSZ - 1)"
  have h1: "length (replicate BUFSZ NUL) = BUFSZ" by simp
  have h2: "?r = (fst ?r, snd ?r)" by simp
  have h3: "fst ?r = 2" by (simp add: recv_sock_def take_fits Let_def)
  show ?thesis
    using h1 h3 C8_terminator_in_bounds [OF h1 h2, of all_up 1 "[1, 2]" new_thread "[]"]
    by blast
qed

text \<open>
  C9. In a registry that holds no handle twice, removing a handle gives no error, and
  removing it again from the result gives no error and the same registry: the handle
  is no longer there. Removing a handle that is not in the registry leaves the registry
  as it is.
\<close>

theorem C9_remove_idempotent:
  assumes "distinct r"
  shows "\<exists>r'. remove_client r h = Some r' \<and> remove_client r' h = Some r'
              \<and> h \<notin> set r' \<and> (h \<notin> set r \<longrightarrow> r' = r)"
  using assms by (simp add: remove_client_eq remove1_idem)

theorem C9_remove_idempotent_witness:
  "distinct [4, 5, 6 :: SOCKET]
   \<and> remove_client [4, 5, 6] 5 = Some [4, 6] \<and> remove_client [4, 6] 5 = Some [4, 6]"
proof -
  have h: "distinct [4, 5, 6 :: SOCKET]" by simp
  show ?thesis
    using h C9_remove_idempotent [OF h, of 5] by (simp add: remove_client_eq)
qed




end
